theory Spec2Isabelle
  imports Main "HOL-Library.Word"
begin

unbundle bit_operations_syntax

section \<open>Machine types and buffers\<close>

text \<open>
  The broker is written for Linux (epoll) on an LP64 target: \<open>unsigned char\<close> and
  \<open>uint8_t\<close> are 8 bits, \<open>short\<close> and \<open>uint16_t\<close> 16 bits, \<open>int\<close> 32 bits,
  \<open>size_t\<close> and \<open>unsigned long long\<close> 64 bits. Arithmetic on words wraps around; for
  \<open>int\<close> this is the two's complement behaviour of the usual compilers where the
  C standard leaves signed overflow undefined.

  A buffer is the list of bytes from the cursor to the end of the memory that holds
  the packet. The C code carries no buffer end with its cursor, so a read past the end
  is undefined behaviour there; here it is the value \<open>Inl ShortBuffer\<close>. A call
  through a NULL entry of the handler table and a lookup past the end of the table are
  undefined behaviour too, and are the values \<open>Inl NullHandlerCall\<close> and
  \<open>Inl TableIndexOutOfRange\<close>. Allocation is taken to succeed.
\<close>

type_synonym u8 = "8 word"
type_synonym u16 = "16 word"
type_synonym c_int = "32 word"
type_synonym size_t = "64 word"

datatype mqtt_error = ShortBuffer | NullHandlerCall | TableIndexOutOfRange

section \<open>Byte codec primitives (pack.h)\<close>

text \<open>
  Modelled from the spec: \<open>unpack_u8\<close>, \<open>unpack_u16\<close> and \<open>unpack_bytes\<close> of pack.h,
  which is not among the sources. Section 4.1 of the specification: unsigned integers in
  network byte order, fixed-length byte sequences, and every reader fails with
  \<open>ShortBuffer\<close> when the cursor would advance past the end. Each reader returns the value
  read and the buffer from the advanced cursor on.
\<close>

definition unpack_u8 :: "u8 list \<Rightarrow> mqtt_error + (u8 \<times> u8 list)" where
  "unpack_u8 buf = (case buf of [] \<Rightarrow> Inl ShortBuffer | b # rest \<Rightarrow> Inr (b, rest))"

definition unpack_u16 :: "u8 list \<Rightarrow> mqtt_error + (u16 \<times> u8 list)" where
  "unpack_u16 buf =
     (case buf of
        hi # lo # rest \<Rightarrow> Inr ((ucast hi :: u16) * 256 + ucast lo, rest)
      | _ \<Rightarrow> Inl ShortBuffer)"

definition unpack_bytes :: "u8 list \<Rightarrow> nat \<Rightarrow> mqtt_error + (u8 list \<times> u8 list)" where
  "unpack_bytes buf len =
     (if len \<le> length buf then Inr (take len buf, drop len buf) else Inl ShortBuffer)"

section \<open>Remaining Length (mqtt.c)\<close>

definition MAX_LEN_BYTES :: nat where
  "MAX_LEN_BYTES = 4"

text \<open>
  \<open>mqtt_encode_length\<close>: the do-while loop. \<open>bytes\<close> counts the bytes written so far and
  never exceeds \<open>MAX_LEN_BYTES\<close>; \<open>buf\<close> holds \<open>buf[0..bytes-1]\<close>. The digit \<open>d\<close> is a
  \<open>short\<close>, narrowed to \<open>unsigned char\<close> by the store. The function returns the bytes
  written and the count.
\<close>

function encode_length_loop :: "nat \<Rightarrow> size_t \<Rightarrow> u8 list \<Rightarrow> u8 list \<times> nat" where
  "encode_length_loop bytes len buf =
     (if bytes + 1 > MAX_LEN_BYTES then (buf, bytes)
      else
        let d = (ucast (len mod 128) :: u16);
            len' = len div 128;
            d' = (if len' > 0 then d OR 128 else d);
            buf' = buf @ [ucast d' :: u8]
        in if len' > 0 then encode_length_loop (bytes + 1) len' buf' else (buf', bytes + 1))"
  by pat_completeness auto
termination
  by (relation "measure (\<lambda>(bytes, len, buf). MAX_LEN_BYTES - bytes)") auto

definition mqtt_encode_length :: "size_t \<Rightarrow> u8 list \<times> nat" where
  "mqtt_encode_length len = encode_length_loop 0 len []"

text \<open>
  \<open>mqtt_decode_length\<close>: \<open>c & 127\<close> and \<open>c & 128\<close> see the low eight bits of \<open>c\<close> only,
  so the result does not depend on whether \<open>char\<close> is signed. The product is an \<open>int\<close>,
  converted to \<open>unsigned long long\<close> (with sign extension) when added to \<open>value\<close>.
  The function returns the value and the buffer from the advanced cursor on.
\<close>

fun decode_length_loop :: "u8 list \<Rightarrow> c_int \<Rightarrow> size_t \<Rightarrow> mqtt_error + (size_t \<times> u8 list)" where
  "decode_length_loop [] multiplier val = Inl ShortBuffer"
| "decode_length_loop (c # buf) multiplier val =
     (let val' = val + scast ((ucast (c AND 127) :: c_int) * multiplier);
          multiplier' = multiplier * 128
      in if c AND 128 \<noteq> 0 then decode_length_loop buf multiplier' val'
         else Inr (val', buf))"

definition mqtt_decode_length :: "u8 list \<Rightarrow> mqtt_error + (size_t \<times> u8 list)" where
  "mqtt_decode_length buf = decode_length_loop buf 1 0"

section \<open>Packets (mqtt.h)\<close>

text \<open>
  Modelled from the spec: the declarations of mqtt.h, which is not among the sources.
  Section 3 of the specification gives the packet type numbers and the fixed-header
  layout, type (4 bits), DUP (1), QoS (2), RETAIN (1) from the high bit down; section 4.2
  gives the connect flags: bit 0 reserved, bit 1 clean-session, bit 2 will, bits 3--4
  will-QoS, bit 5 will-retain, bit 6 password, bit 7 username. A header is its byte; the
  bit fields of the unions are functions of the byte.
\<close>

definition CONNECT :: u8 where "CONNECT = 1"
definition CONNACK :: u8 where "CONNACK = 2"
definition PUBLISH :: u8 where "PUBLISH = 3"
definition PUBACK :: u8 where "PUBACK = 4"
definition PUBREC :: u8 where "PUBREC = 5"
definition PUBREL :: u8 where "PUBREL = 6"
definition PUBCOMP :: u8 where "PUBCOMP = 7"
definition SUBSCRIBE :: u8 where "SUBSCRIBE = 8"
definition SUBACK :: u8 where "SUBACK = 9"
definition UNSUBSCRIBE :: u8 where "UNSUBSCRIBE = 10"
definition UNSUBACK :: u8 where "UNSUBACK = 11"
definition PINGREQ :: u8 where "PINGREQ = 12"
definition PINGRESP :: u8 where "PINGRESP = 13"
definition DISCONNECT :: u8 where "DISCONNECT = 14"

definition AT_MOST_ONCE :: u8 where "AT_MOST_ONCE = 0"

definition header_type :: "u8 \<Rightarrow> u8" where
  "header_type byte = drop_bit 4 byte"

definition header_qos :: "u8 \<Rightarrow> u8" where
  "header_qos byte = drop_bit 1 byte AND 3"

definition connect_will :: "u8 \<Rightarrow> u8" where
  "connect_will byte = drop_bit 2 byte AND 1"

definition connect_password :: "u8 \<Rightarrow> u8" where
  "connect_password byte = drop_bit 6 byte AND 1"

definition connect_username :: "u8 \<Rightarrow> u8" where
  "connect_username byte = drop_bit 7 byte AND 1"

text \<open>
  The structures hold what the decoders of mqtt.c store in them. A \<open>malloc\<close>ed string is
  the list of its bytes; a pointer the decoder leaves at its zero initialisation is
  \<open>None\<close>. The number of tuples (\<open>tuples_len\<close>) is the length of the tuple list.
\<close>

record mqtt_connect =
  connect_header :: u8
  connect_byte :: u8
  keepalive :: u16
  client_id :: "u8 list option"
  username :: "u8 list option"
  password :: "u8 list option"
  will_topic :: "u8 list option"
  will_message :: "u8 list option"

record mqtt_publish =
  publish_header :: u8
  publish_pkt_id :: u16
  topiclen :: u16
  topic :: "u8 list"
  payloadlen :: u16
  payload :: "u8 list"

record subscribe_tuple =
  sub_topic_len :: u16
  sub_topic :: "u8 list"
  sub_qos :: u8

record mqtt_subscribe =
  subscribe_header :: u8
  subscribe_pkt_id :: u16
  subscribe_tuples :: "subscribe_tuple list"

record unsubscribe_tuple =
  unsub_topic_len :: u16
  unsub_topic :: "u8 list"

record mqtt_unsubscribe =
  unsubscribe_header :: u8
  unsubscribe_pkt_id :: u16
  unsubscribe_tuples :: "unsubscribe_tuple list"

record mqtt_ack =
  ack_header :: u8
  ack_pkt_id :: u16

datatype mqtt_packet =
    Header u8
  | Connect mqtt_connect
  | Publish mqtt_publish
  | Subscribe mqtt_subscribe
  | Unsubscribe mqtt_unsubscribe
  | Ack mqtt_ack

section \<open>Decoders (mqtt.c)\<close>

text \<open>Sequencing of fallible steps: the first failure is the result.\<close>

definition bind :: "mqtt_error + 'a \<Rightarrow> ('a \<Rightarrow> mqtt_error + 'b) \<Rightarrow> mqtt_error + 'b" where
  "bind m f = (case m of Inl e \<Rightarrow> Inl e | Inr x \<Rightarrow> f x)"

text \<open>
  Every decoder takes the buffer from the byte after the fixed-header type byte on, and
  the header; it returns the packet and the decoded Remaining Length.

  \<open>unpack_mqtt_connect\<close> decodes the Remaining Length, then sets the cursor to
  \<open>init + 8\<close> whatever was decoded.
\<close>

definition unpack_mqtt_connect :: "u8 list \<Rightarrow> u8 \<Rightarrow> mqtt_error + (mqtt_packet \<times> size_t)" where
  "unpack_mqtt_connect init hdr =
     bind (mqtt_decode_length init) (\<lambda>(len, _).
     bind (unpack_u8 (drop 8 init)) (\<lambda>(byte, raw).
     bind (unpack_u16 raw) (\<lambda>(ka, raw).
     bind (unpack_u16 raw) (\<lambda>(cid_len, raw).
     bind (if cid_len > 0
           then bind (unpack_bytes raw (unat cid_len)) (\<lambda>(s, raw). Inr (Some s, raw))
           else Inr (None, raw)) (\<lambda>(cid, raw).
     bind (if connect_will byte = 1
           then bind (unpack_u16 raw) (\<lambda>(will_topic_len, raw).
                bind (unpack_bytes raw (unat will_topic_len)) (\<lambda>(wt, raw).
                bind (unpack_u16 raw) (\<lambda>(will_message_len, raw).
                bind (unpack_bytes raw (unat will_message_len)) (\<lambda>(wm, raw).
                Inr (Some wt, Some wm, raw)))))
           else Inr (None, None, raw)) (\<lambda>(wt, wm, raw).
     bind (if connect_username byte = 1
           then bind (unpack_u16 raw) (\<lambda>(username_len, raw).
                bind (unpack_bytes raw (unat username_len)) (\<lambda>(s, raw). Inr (Some s, raw)))
           else Inr (None, raw)) (\<lambda>(un, raw).
     bind (if connect_password byte = 1
           then bind (unpack_u16 raw) (\<lambda>(password_len, raw).
                bind (unpack_bytes raw (unat password_len)) (\<lambda>(s, raw). Inr (Some s, raw)))
           else Inr (None, raw)) (\<lambda>(pw, raw).
     Inr (Connect \<lparr>connect_header = hdr, connect_byte = byte, keepalive = ka,
                    client_id = cid, username = un, password = pw,
                    will_topic = wt, will_message = wm\<rparr>, len)))))))))"

text \<open>
  \<open>unpack_mqtt_publish\<close>: \<open>message_len\<close> is a \<open>uint16_t\<close> initialised from the
  \<open>size_t\<close> Remaining Length; each \<open>-=\<close> computes in \<open>size_t\<close> and narrows the
  result to 16 bits again.
\<close>

definition unpack_mqtt_publish :: "u8 list \<Rightarrow> u8 \<Rightarrow> mqtt_error + (mqtt_packet \<times> size_t)" where
  "unpack_mqtt_publish raw hdr =
     bind (mqtt_decode_length raw) (\<lambda>(len, raw).
     bind (unpack_u16 raw) (\<lambda>(topic_len, raw).
     bind (unpack_bytes raw (unat topic_len)) (\<lambda>(tp, raw).
     let message_len = (ucast len :: u16) in
     bind (if header_qos hdr > AT_MOST_ONCE
           then bind (unpack_u16 raw) (\<lambda>(pid, raw).
                Inr (pid, (ucast ((ucast message_len :: size_t) - 2) :: u16), raw))
           else Inr (0, message_len, raw)) (\<lambda>(pid, message_len, raw).
     let message_len = (ucast ((ucast message_len :: size_t) - (2 + ucast topic_len)) :: u16) in
     bind (unpack_bytes raw (unat message_len)) (\<lambda>(pl, raw).
     Inr (Publish \<lparr>publish_header = hdr, publish_pkt_id = pid, topiclen = topic_len,
                    topic = tp, payloadlen = message_len, payload = pl\<rparr>, len))))))"

text \<open>
  \<open>unpack_mqtt_subscribe\<close>: one run of the loop body reads a topic length, the topic and a
  QoS byte, and decrements the \<open>size_t\<close> counter \<open>remaining_bytes\<close> by each. The body
  returns the tuple, the counter and the cursor.
\<close>

definition subscribe_body :: "size_t \<Rightarrow> u8 list \<Rightarrow> mqtt_error + (subscribe_tuple \<times> size_t \<times> u8 list)" where
  "subscribe_body remaining_bytes raw =
     bind (unpack_u16 raw) (\<lambda>(topic_len, raw).
     let remaining_bytes = remaining_bytes - 2 in
     bind (unpack_bytes raw (unat topic_len)) (\<lambda>(tp, raw).
     let remaining_bytes = remaining_bytes - ucast topic_len in
     bind (unpack_u8 raw) (\<lambda>(q, raw).
     let remaining_bytes = remaining_bytes - 1 in
     Inr (\<lparr>sub_topic_len = topic_len, sub_topic = tp, sub_qos = q\<rparr>, remaining_bytes, raw))))"

function subscribe_loop :: "size_t \<Rightarrow> u8 list \<Rightarrow> subscribe_tuple list \<Rightarrow> mqtt_error + (subscribe_tuple list \<times> u8 list)" where
  "subscribe_loop remaining_bytes raw tuples =
     (if remaining_bytes > 0
      then (case subscribe_body remaining_bytes raw of
              Inl e \<Rightarrow> Inl e
            | Inr (t, remaining_bytes', raw') \<Rightarrow> subscribe_loop remaining_bytes' raw' (tuples @ [t]))
      else Inr (tuples, raw))"
  by pat_completeness auto
termination
proof (relation "measure (\<lambda>(remaining_bytes, raw, tuples). length raw)", goal_cases)
  case 1
  show ?case by simp
next
  case (2 remaining_bytes raw tuples x t y remaining_bytes' raw')
  have u16: "length r < length b" if "unpack_u16 b = Inr (v, r)" for b v r
    using that by (auto simp: unpack_u16_def split: list.splits)
  have bytes: "length r \<le> length b" if "unpack_bytes b n = Inr (v, r)" for b n v r
    using that by (auto simp: unpack_bytes_def split: if_splits)
  have u8: "length r < length b" if "unpack_u8 b = Inr (v, r)" for b v r
    using that by (auto simp: unpack_u8_def split: list.splits)
  from 2(2-4) obtain v1 r1 v2 r2 v3 where
    "unpack_u16 raw = Inr (v1, r1)" "unpack_bytes r1 (unat v1) = Inr (v2, r2)"
    "unpack_u8 r2 = Inr (v3, raw')"
    by (auto simp: subscribe_body_def bind_def Let_def split: sum.splits)
  then have "length raw' < length raw"
    using u16 [of raw v1 r1] bytes [of r1 "unat v1" v2 r2] u8 [of r2 v3 raw'] by simp
  then show ?case by simp
qed

definition unpack_mqtt_subscribe :: "u8 list \<Rightarrow> u8 \<Rightarrow> mqtt_error + (mqtt_packet \<times> size_t)" where
  "unpack_mqtt_subscribe raw hdr =
     bind (mqtt_decode_length raw) (\<lambda>(len, raw).
     let remaining_bytes = len in
     bind (unpack_u16 raw) (\<lambda>(pid, raw).
     let remaining_bytes = remaining_bytes - 2 in
     bind (subscribe_loop remaining_bytes raw []) (\<lambda>(tuples, raw).
     Inr (Subscribe \<lparr>subscribe_header = hdr, subscribe_pkt_id = pid,
                      subscribe_tuples = tuples\<rparr>, len))))"

text \<open>\<open>unpack_mqtt_unsubscribe\<close>: the same loop without the QoS byte.\<close>

definition unsubscribe_body :: "size_t \<Rightarrow> u8 list \<Rightarrow> mqtt_error + (unsubscribe_tuple \<times> size_t \<times> u8 list)" where
  "unsubscribe_body remaining_bytes raw =
     bind (unpack_u16 raw) (\<lambda>(topic_len, raw).
     let remaining_bytes = remaining_bytes - 2 in
     bind (unpack_bytes raw (unat topic_len)) (\<lambda>(tp, raw).
     let remaining_bytes = remaining_bytes - ucast topic_len in
     Inr (\<lparr>unsub_topic_len = topic_len, unsub_topic = tp\<rparr>, remaining_bytes, raw)))"

function unsubscribe_loop :: "size_t \<Rightarrow> u8 list \<Rightarrow> unsubscribe_tuple list \<Rightarrow> mqtt_error + (unsubscribe_tuple list \<times> u8 list)" where
  "unsubscribe_loop remaining_bytes raw tuples =
     (if remaining_bytes > 0
      then (case unsubscribe_body remaining_bytes raw of
              Inl e \<Rightarrow> Inl e
            | Inr (t, remaining_bytes', raw') \<Rightarrow> unsubscribe_loop remaining_bytes' raw' (tuples @ [t]))
      else Inr (tuples, raw))"
  by pat_completeness auto
termination
proof (relation "measure (\<lambda>(remaining_bytes, raw, tuples). length raw)", goal_cases)
  case 1
  show ?case by simp
next
  case (2 remaining_bytes raw tuples x t y remaining_bytes' raw')
  have u16: "length r < length b" if "unpack_u16 b = Inr (v, r)" for b v r
    using that by (auto simp: unpack_u16_def split: list.splits)
  have bytes: "length r \<le> length b" if "unpack_bytes b n = Inr (v, r)" for b n v r
    using that by (auto simp: unpack_bytes_def split: if_splits)
  from 2(2-4) obtain v1 r1 v2 where
    "unpack_u16 raw = Inr (v1, r1)" "unpack_bytes r1 (unat v1) = Inr (v2, raw')"
    by (auto simp: unsubscribe_body_def bind_def Let_def split: sum.splits)
  then have "length raw' < length raw"
    using u16 [of raw v1 r1] bytes [of r1 "unat v1" v2 raw'] by simp
  then show ?case by simp
qed

definition unpack_mqtt_unsubscribe :: "u8 list \<Rightarrow> u8 \<Rightarrow> mqtt_error + (mqtt_packet \<times> size_t)" where
  "unpack_mqtt_unsubscribe raw hdr =
     bind (mqtt_decode_length raw) (\<lambda>(len, raw).
     let remaining_bytes = len in
     bind (unpack_u16 raw) (\<lambda>(pid, raw).
     let remaining_bytes = remaining_bytes - 2 in
     bind (unsubscribe_loop remaining_bytes raw []) (\<lambda>(tuples, raw).
     Inr (Unsubscribe \<lparr>unsubscribe_header = hdr, unsubscribe_pkt_id = pid,
                        unsubscribe_tuples = tuples\<rparr>, len))))"

definition unpack_mqtt_ack :: "u8 list \<Rightarrow> u8 \<Rightarrow> mqtt_error + (mqtt_packet \<times> size_t)" where
  "unpack_mqtt_ack raw hdr =
     bind (mqtt_decode_length raw) (\<lambda>(len, raw).
     bind (unpack_u16 raw) (\<lambda>(pid, raw).
     Inr (Ack \<lparr>ack_header = hdr, ack_pkt_id = pid\<rparr>, len)))"

text \<open>
  The table of handlers: eleven entries, indexed by the type nibble, \<open>None\<close> for NULL.
\<close>

type_synonym mqtt_unpack_handler = "u8 list \<Rightarrow> u8 \<Rightarrow> mqtt_error + (mqtt_packet \<times> size_t)"

definition unpack_handlers :: "mqtt_unpack_handler option list" where
  "unpack_handlers =
     [None,
      Some unpack_mqtt_connect,
      None,
      Some unpack_mqtt_publish,
      Some unpack_mqtt_ack,
      Some unpack_mqtt_ack,
      Some unpack_mqtt_ack,
      Some unpack_mqtt_ack,
      Some unpack_mqtt_subscribe,
      None,
      Some unpack_mqtt_unsubscribe]"

text \<open>
  \<open>unpack_mqtt_packet\<close> returns the packet and \<open>rc\<close>, the handler's \<open>size_t\<close> result
  narrowed to \<open>int\<close>. The C code indexes the table with the nibble and calls the entry
  without a check.
\<close>

definition unpack_mqtt_packet :: "u8 list \<Rightarrow> mqtt_error + (mqtt_packet \<times> c_int)" where
  "unpack_mqtt_packet raw =
     (case raw of
        [] \<Rightarrow> Inl ShortBuffer
      | type # raw \<Rightarrow>
          if header_type type = DISCONNECT \<or> header_type type = PINGREQ
             \<or> header_type type = PINGRESP
          then Inr (Header type, 0)
          else if unat (header_type type) < length unpack_handlers
          then (case unpack_handlers ! unat (header_type type) of
                  None \<Rightarrow> Inl NullHandlerCall
                | Some handler \<Rightarrow>
                    bind (handler raw type) (\<lambda>(pkt, len). Inr (pkt, (ucast len :: c_int))))
          else Inl TableIndexOutOfRange)"

section \<open>Event loop (network.h, server.h)\<close>

definition EPOLL_MAX_EVENTS :: nat where
  "EPOLL_MAX_EVENTS = 256"

definition EPOLL_TIMEOUT :: int where
  "EPOLL_TIMEOUT = - 1"

text \<open>
  A closure is a descriptor and a callback; the callback acts on the state of the broker,
  of type \<open>'s\<close>. The loop holds the bound on the events of one wait, the timeout and the
  registered closures.
\<close>

record 's closure =
  fd :: int
  call :: "'s \<Rightarrow> 's"

record 's evloop =
  max_events :: nat
  timeout :: int
  closures :: "'s closure list"

text \<open>
  Modelled from the spec: \<open>evloop_create\<close>, \<open>evloop_add_callback\<close> and one cycle of
  \<open>evloop_wait\<close>, declared in network.h and defined in a file that is not among the
  sources. Section 4.6 of the specification: wait for up to N ready events; for each ready
  descriptor look up its closure and invoke its callback. \<open>ready\<close> is the list of the
  descriptors the kernel has ready; the cycle returns the state after the callbacks and
  the descriptors whose callback ran, in order.
\<close>

definition evloop_create :: "nat \<Rightarrow> int \<Rightarrow> 's evloop" where
  "evloop_create n t = \<lparr>max_events = n, timeout = t, closures = []\<rparr>"

definition evloop_add_callback :: "'s evloop \<Rightarrow> 's closure \<Rightarrow> 's evloop" where
  "evloop_add_callback el c = el\<lparr>closures := closures el @ [c]\<rparr>"

definition find_closure :: "'s evloop \<Rightarrow> int \<Rightarrow> 's closure option" where
  "find_closure el d = find (\<lambda>c. fd c = d) (closures el)"

fun run_events :: "'s evloop \<Rightarrow> int list \<Rightarrow> 's \<Rightarrow> int list \<Rightarrow> 's \<times> int list" where
  "run_events el [] s called = (s, called)"
| "run_events el (d # ds) s called =
     (case find_closure el d of
        None \<Rightarrow> run_events el ds s called
      | Some c \<Rightarrow> run_events el ds (call c s) (called @ [d]))"

definition evloop_cycle :: "'s evloop \<Rightarrow> int list \<Rightarrow> 's \<Rightarrow> 's \<times> int list" where
  "evloop_cycle el ready s = run_events el (take (max_events el) ready) s []"

section \<open>Notions the properties speak of\<close>

text \<open>
  The decoders have one way to fail in this model, a read past the end of the buffer:
  a result is either a value or \<open>ShortBuffer\<close>.
\<close>

definition only_short_buffer :: "mqtt_error + 'a \<Rightarrow> bool" where
  "only_short_buffer m \<longleftrightarrow> (case m of Inl e \<Rightarrow> e = ShortBuffer | Inr _ \<Rightarrow> True)"

text \<open>The two bytes of a 16-bit value in network byte order.\<close>

definition pack_u16 :: "u16 \<Rightarrow> u8 list" where
  "pack_u16 v = [ucast (drop_bit 8 v), ucast v]"

text \<open>
  A SUBSCRIBE tuple on the wire is the topic length, the topic and the requested-QoS
  byte; an UNSUBSCRIBE tuple is the topic length and the topic.
\<close>

definition pack_subscribe_tuple :: "subscribe_tuple \<Rightarrow> u8 list" where
  "pack_subscribe_tuple t = pack_u16 (sub_topic_len t) @ sub_topic t @ [sub_qos t]"

definition wf_subscribe_tuple :: "subscribe_tuple \<Rightarrow> bool" where
  "wf_subscribe_tuple t \<longleftrightarrow> length (sub_topic t) = unat (sub_topic_len t)"

text \<open>
  The declared topic lengths exactly exhaust \<open>n\<close> bytes of the buffer: either \<open>n\<close> is 0,
  or the buffer starts with a whole tuple of at most \<open>n\<close> bytes, and the lengths declared
  after it exactly exhaust the rest of \<open>n\<close>. \<open>extra\<close> is what a tuple holds besides the
  length field and the topic: the QoS byte of SUBSCRIBE, nothing for UNSUBSCRIBE.
\<close>

function lengths_exhaust :: "nat \<Rightarrow> u8 list \<Rightarrow> nat \<Rightarrow> bool" where
  "lengths_exhaust extra raw n =
     (if n = 0 then True
      else (case raw of
              hi # lo # rest \<Rightarrow>
                (let topic_len = 256 * unat hi + unat lo in
                 if 2 + topic_len + extra \<le> n \<and> topic_len + extra \<le> length rest
                 then lengths_exhaust extra (drop (topic_len + extra) rest) (n - (2 + topic_len + extra))
                 else False)
            | _ \<Rightarrow> False))"
  by pat_completeness auto
termination
  by (relation "measure (\<lambda>(extra, raw, n). n)") auto

text \<open>
  A CONNECT packet after its type byte: the Remaining Length bytes, the protocol name
  with its length prefix, the protocol level, the connect flags, and the rest (keepalive
  and payload).
\<close>

definition connect_frame :: "u8 list \<Rightarrow> u8 list \<Rightarrow> u8 \<Rightarrow> u8 \<Rightarrow> u8 list \<Rightarrow> u8 list" where
  "connect_frame length_bytes name level flags rest =
     length_bytes @ pack_u16 (word_of_nat (length name)) @ name @ [level, flags] @ rest"

section \<open>Remaining Length: round trip and bounds\<close>

declare encode_length_loop.simps [simp del]

lemma mod128: "(x::size_t) mod 128 = take_bit 7 x"
  by (simp add: take_bit_eq_mod)

lemma bit128: "bit (128::'a::semiring_bit_operations) n \<longleftrightarrow> possible_bit TYPE('a) n \<and> n = 7"
proof -
  have "(128::'a) = 2 ^ 7" by simp
  then show ?thesis by (simp only: bit_exp_iff)
qed

lemma c127_u8: "(127::u8) = mask 7"
  by (simp add: mask_eq_exp_minus_1)

lemma lo_and128: "(ucast (ucast ((x::size_t) mod 128) :: u16) :: u8) AND 128 = 0"
  unfolding mod128
  by (rule bit_word_eqI) (auto simp: bit_simps bit128)

lemma hi_and128: "(ucast ((ucast ((x::size_t) mod 128) :: u16) OR 128) :: u8) AND 128 \<noteq> 0"
  unfolding mod128
  by (auto simp: bit_eq_iff bit_simps bit128 intro!: exI[of _ 7])

lemma lo_and127: "(ucast ((ucast (ucast ((x::size_t) mod 128) :: u16) :: u8) AND 127) :: c_int) = ucast (x mod 128)"
  unfolding mod128 c127_u8
  by (rule bit_word_eqI) (auto simp: bit_simps)

lemma hi_and127: "(ucast ((ucast ((ucast ((x::size_t) mod 128) :: u16) OR 128) :: u8) AND 127) :: c_int) = ucast (x mod 128)"
  unfolding mod128 c127_u8
  by (rule bit_word_eqI) (auto simp: bit_simps bit128)

lemma term_scast: "k \<le> 21 \<Longrightarrow> (scast (push_bit k (ucast ((x::size_t) mod 128) :: c_int)) :: size_t) = push_bit k (x mod 128)"
  unfolding mod128
  by (rule bit_word_eqI) (auto simp: bit_simps)

lemma term_scast': "k \<le> 3 \<Longrightarrow> (scast ((ucast ((x::size_t) mod 128) :: c_int) * 128 ^ k) :: size_t) = (x mod 128) * 128 ^ k"
  using term_scast[of "7 * k" x]
  by (simp add: push_bit_eq_mult power_mult)

lemma encode_length_loop_append:
  "encode_length_loop bytes len buf =
     (buf @ fst (encode_length_loop bytes len []), snd (encode_length_loop bytes len []))"
proof (induction "MAX_LEN_BYTES - bytes" arbitrary: bytes len buf)
  case 0
  then show ?case by (subst (1 2 3) encode_length_loop.simps) simp
next
  case (Suc n)
  have a: "n = MAX_LEN_BYTES - (bytes + 1)" using Suc.hyps(2) by simp
  show ?case
    using Suc.hyps(1)[OF a, of "len div 128" "buf @ [ucast ((ucast (len mod 128) :: u16) OR 128)]"]
          Suc.hyps(1)[OF a, of "len div 128" "[ucast ((ucast (len mod 128) :: u16) OR 128)]"]
    by (subst (1 2 3) encode_length_loop.simps) (simp add: Let_def)
qed

lemma encode_length_loop_count:
  "bytes < MAX_LEN_BYTES \<Longrightarrow>
     bytes < snd (encode_length_loop bytes len buf) \<and>
     snd (encode_length_loop bytes len buf) \<le> MAX_LEN_BYTES \<and>
     length (fst (encode_length_loop bytes len buf)) + bytes
       = length buf + snd (encode_length_loop bytes len buf)"
proof (induction "MAX_LEN_BYTES - bytes" arbitrary: bytes len buf)
  case 0
  then show ?case by simp
next
  case (Suc n)
  let ?buf' = "buf @ [ucast ((ucast (len mod 128) :: u16) OR 128)]"
  have a: "n = MAX_LEN_BYTES - (bytes + 1)" using Suc.hyps(2) by simp
  show ?case
  proof (cases "bytes + 1 < MAX_LEN_BYTES")
    case True
    show ?thesis
      using Suc.hyps(1)[OF a True, of "len div 128" ?buf'] Suc.prems
      by (subst (1 2 3 4) encode_length_loop.simps) (auto simp: Let_def)
  next
    case False
    have "encode_length_loop (bytes + 1) (len div 128) ?buf' = (?buf', bytes + 1)"
      using False by (subst encode_length_loop.simps) simp
    then show ?thesis
      using Suc.prems
      by (subst (1 2 3 4) encode_length_loop.simps) (auto simp: Let_def)
  qed
qed

lemma roundtrip_loop:
  "bytes < 4 \<Longrightarrow> unat len < 128 ^ (4 - bytes) \<Longrightarrow>
   decode_length_loop (fst (encode_length_loop bytes len []) @ rest) (128 ^ bytes) v
     = Inr (v + len * 128 ^ bytes, rest)"
proof (induction "4 - bytes" arbitrary: bytes len v)
  case 0
  then show ?case by simp
next
  case (Suc n)
  let ?hi = "ucast ((ucast (len mod 128) :: u16) OR 128) :: u8"
  let ?lo = "ucast (ucast (len mod 128) :: u16) :: u8"
  have k: "bytes \<le> 3" using Suc.prems by simp
  show ?case
  proof (cases "len div 128 > 0")
    case False
    then have z: "len div 128 = 0" by (simp add: word_greater_zero_iff)
    have m: "len mod 128 = len"
      using div_mult_mod_eq[of len 128] z by simp
    have e: "encode_length_loop bytes len [] = ([?lo], bytes + 1)"
      using Suc.prems z by (subst encode_length_loop.simps) (simp add: MAX_LEN_BYTES_def Let_def)
    show ?thesis
      using term_scast'[OF k, of len] lo_and128[of len] lo_and127[of len]
      by (simp add: e Let_def m)
  next
    case True
    have b3: "bytes < 3"
    proof (rule ccontr)
      assume "\<not> bytes < 3"
      with k have "bytes = 3" by simp
      with Suc.prems have "unat len < 128" by simp
      then have "unat (len div 128) = 0" by (simp add: unat_div)
      then have "len div 128 = 0" by (simp add: unat_eq_0)
      with True show False by simp
    qed
    have n: "n = 4 - (bytes + 1)" using Suc.hyps(2) by simp
    have u: "unat (len div 128) < 128 ^ (4 - (bytes + 1))"
    proof -
      have "4 - bytes = Suc (4 - (bytes + 1))" using b3 by simp
      then have "(128::nat) ^ (4 - bytes) = 128 ^ (4 - (bytes + 1)) * 128"
        by (simp only: power_Suc2)
      then have "unat len < 128 ^ (4 - (bytes + 1)) * 128"
        using Suc.prems by simp
      then show ?thesis by (simp add: unat_div less_mult_imp_div_less)
    qed
    have e: "fst (encode_length_loop bytes len []) = ?hi # fst (encode_length_loop (bytes + 1) (len div 128) [])"
      using Suc.prems True
      by (subst encode_length_loop.simps, subst encode_length_loop_append)
         (simp add: MAX_LEN_BYTES_def Let_def)
    have ih: "decode_length_loop (fst (encode_length_loop (bytes + 1) (len div 128) []) @ rest)
                 (128 ^ (bytes + 1)) (v + len mod 128 * 128 ^ bytes)
              = Inr (v + len mod 128 * 128 ^ bytes + len div 128 * 128 ^ (bytes + 1), rest)"
      using Suc.hyps(1)[OF n _ u] b3 by simp
    have s: "len mod 128 * 128 ^ bytes + len div 128 * 128 ^ (bytes + 1) = len * 128 ^ bytes"
    proof -
      have "len mod 128 * 128 ^ bytes + len div 128 * 128 ^ (bytes + 1)
            = (len div 128 * 128 + len mod 128) * 128 ^ bytes"
        by (simp add: algebra_simps)
      then show ?thesis by (simp only: div_mult_mod_eq)
    qed
    have p: "(128::c_int) ^ (bytes + 1) = 128 ^ bytes * 128" by simp
    have ih': "decode_length_loop (fst (encode_length_loop (bytes + 1) (len div 128) []) @ rest)
                 (128 ^ bytes * 128) (v + len mod 128 * 128 ^ bytes)
              = Inr (v + len * 128 ^ bytes, rest)"
      using ih s unfolding p by (simp only: add.assoc)
    show ?thesis
      using term_scast'[OF k, of len] ih'
      by (simp add: e Let_def hi_and128 hi_and127)
  qed
qed

lemma length_roundtrip:
  assumes "unat len < 128 ^ 4"
  shows "mqtt_decode_length (fst (mqtt_encode_length len) @ rest) = Inr (len, rest)"
  using roundtrip_loop [of 0 len rest 0] assms
  by (simp add: mqtt_decode_length_def mqtt_encode_length_def)

lemma encode_length_count:
  "1 \<le> snd (mqtt_encode_length len) \<and> snd (mqtt_encode_length len) \<le> 4 \<and>
   length (fst (mqtt_encode_length len)) = snd (mqtt_encode_length len)"
  using encode_length_loop_count [of 0 len "[]"]
  by (simp add: mqtt_encode_length_def MAX_LEN_BYTES_def)

text \<open>
  C1. For every Remaining Length \<open>L\<close> in \<open>[0, 268435455]\<close>, decoding the bytes that
  \<open>mqtt_encode_length\<close> produces for \<open>L\<close> with \<open>mqtt_decode_length\<close> yields \<open>L\<close> again
  (with nothing left over), and the encoding occupies between 1 and 4 bytes.
\<close>

theorem remaining_length_roundtrip:
  "L \<le> 268435455 \<Longrightarrow>
     mqtt_decode_length (fst (mqtt_encode_length L)) = Inr (L, []) \<and>
     1 \<le> snd (mqtt_encode_length L) \<and> snd (mqtt_encode_length L) \<le> 4 \<and>
     length (fst (mqtt_encode_length L)) = snd (mqtt_encode_length L)"
proof -
  assume "L \<le> 268435455"
  then have "unat L < 128 ^ 4" by (simp add: word_le_nat_alt)
  then show ?thesis
    using length_roundtrip [of L "[]"] encode_length_count [of L] by simp
qed

theorem remaining_length_roundtrip_witness:
  "(268435455 :: size_t) \<le> 268435455 \<and>
   mqtt_encode_length 268435455 = ([255, 255, 255, 127], 4) \<and>
   mqtt_decode_length [255, 255, 255, 127] = Inr (268435455, [])"
proof -
  have e: "mqtt_encode_length 268435455 = ([255, 255, 255, 127], 4)" by code_simp
  show ?thesis
    using remaining_length_roundtrip [of 268435455] by (simp add: e)
qed

text \<open>
  C2. The claim is that the decoder stops with an error when the fourth length byte still has
  its continuation bit set. The loop of \<open>mqtt_decode_length\<close> has no bound (the source
  notes it as a TODO): on four continuation bytes followed by \<open>0x00\<close> it reads the fifth
  byte and returns a value, leaving the cursor after five bytes.
\<close>

theorem decode_length_reads_fifth_byte:
  "mqtt_decode_length [0x80, 0x80, 0x80, 0x80, 0x00, 0x07] = Inr (0, [0x07]) \<and>
   mqtt_decode_length [0xFF, 0xFF, 0xFF, 0xFF, 0x01, 0x07] = Inr (536870911, [0x07])"
  by code_simp

lemma hi_byte: "(ucast ((ucast ((x::size_t) mod 128) :: u16) OR 128) :: u8) = ucast x OR 128"
  unfolding mod128
  by (rule bit_word_eqI) (auto simp: bit_simps bit128)

lemma div128_pos: "128 \<le> unat (x::size_t) \<Longrightarrow> x div 128 > 0"
proof -
  assume "128 \<le> unat x"
  then have "unat (x div 128) \<noteq> 0" by (simp add: unat_div)
  then show ?thesis by (simp add: word_greater_zero_iff unat_eq_0)
qed

lemma encode_length_too_large:
  assumes "268435455 < L"
  shows "mqtt_encode_length L =
           ([ucast L OR 128, ucast (L div 128) OR 128, ucast (L div 128 div 128) OR 128,
             ucast (L div 128 div 128 div 128) OR 128], 4)"
proof -
  have u: "128 * 128 * 128 * 128 \<le> unat L" using assms by (simp add: word_less_nat_alt)
  have p1: "L div 128 > 0" using u by (intro div128_pos) simp
  have p2: "L div 128 div 128 > 0" using u by (intro div128_pos) (simp add: unat_div)
  have p3: "L div 128 div 128 div 128 > 0" using u by (intro div128_pos) (simp add: unat_div)
  have p4: "L div 128 div 128 div 128 div 128 > 0" using u by (intro div128_pos) (simp add: unat_div)
  show ?thesis
    unfolding mqtt_encode_length_def
    apply (subst encode_length_loop.simps)
    apply (simp add: MAX_LEN_BYTES_def Let_def p1 hi_byte)
    apply (subst encode_length_loop.simps)
    apply (simp add: MAX_LEN_BYTES_def Let_def p2 hi_byte)
    apply (subst encode_length_loop.simps)
    apply (simp add: MAX_LEN_BYTES_def Let_def p3 hi_byte)
    apply (subst encode_length_loop.simps)
    apply (simp add: MAX_LEN_BYTES_def Let_def p4 hi_byte)
    apply (subst encode_length_loop.simps)
    apply (simp add: MAX_LEN_BYTES_def)
    done
qed

text \<open>
  C7, as the code has it. \<open>mqtt_encode_length\<close> emits at most 4 bytes and returns their
  number. For a value greater than 268435455 it reports no failure: it returns 4, and
  the four bytes written are the low 28 bits of the value, seven at a time, each with the
  continuation bit set.
\<close>

theorem encode_length_truncates:
  "snd (mqtt_encode_length L) \<le> 4 \<and>
   length (fst (mqtt_encode_length L)) = snd (mqtt_encode_length L) \<and>
   (268435455 < L \<longrightarrow>
      mqtt_encode_length L =
        ([ucast L OR 128, ucast (L div 128) OR 128, ucast (L div 128 div 128) OR 128,
          ucast (L div 128 div 128 div 128) OR 128], 4))"
  using encode_length_count [of L] encode_length_too_large [of L] by simp

theorem encode_length_truncates_witness:
  "(268435455 :: size_t) < 268435456 \<and>
   mqtt_encode_length 268435456 = ([128, 128, 128, 128], 4)"
  using encode_length_truncates [of 268435456] by simp

text \<open>
  C7 as stated fails: for 268435456 the function returns the count 4, the value it also
  returns for the largest encodable length, and the bytes written are those of a
  truncated encoding.
\<close>

theorem encode_length_no_error_counterexample:
  "mqtt_encode_length 268435456 = ([128, 128, 128, 128], 4) \<and>
   snd (mqtt_encode_length 268435456) = snd (mqtt_encode_length 268435455) \<and>
   mqtt_encode_length 268435457 = ([129, 128, 128, 128], 4)"
  by code_simp

section \<open>Failures of the decoders\<close>

lemma osb_Inr: "only_short_buffer (Inr x)"
  by (simp add: only_short_buffer_def)

lemma osb_Inl: "only_short_buffer (Inl ShortBuffer)"
  by (simp add: only_short_buffer_def)

lemma osb_bind: "only_short_buffer m \<Longrightarrow> (\<And>x. only_short_buffer (f x)) \<Longrightarrow> only_short_buffer (bind m f)"
  by (cases m) (simp_all add: bind_def only_short_buffer_def)


lemma osb_prod: "(\<And>a b. only_short_buffer (f a b)) \<Longrightarrow> only_short_buffer (case p of (a, b) \<Rightarrow> f a b)"
  by (cases p) simp

lemma osb_let: "only_short_buffer (f v) \<Longrightarrow> only_short_buffer (Let v f)"
  by simp

lemma osb_decode_length_loop: "only_short_buffer (decode_length_loop buf m v)"
  by (induction buf m v rule: decode_length_loop.induct) (simp_all add: osb_Inl osb_Inr Let_def)

lemma osb_readers:
  "only_short_buffer (unpack_u8 buf)"
  "only_short_buffer (unpack_u16 buf)"
  "only_short_buffer (unpack_bytes buf n)"
  "only_short_buffer (mqtt_decode_length buf)"
  by (simp_all add: unpack_u8_def unpack_u16_def unpack_bytes_def mqtt_decode_length_def
        osb_decode_length_loop osb_Inl osb_Inr split: list.splits)

section \<open>Dispatch on the packet type\<close>

declare subscribe_loop.simps [simp del]
declare unsubscribe_loop.simps [simp del]
declare lengths_exhaust.simps [simp del]

text \<open>
  C3. The claim is that each of the 14 packet types is handled by a defined decoder, and
  that an unknown or reserved type gives an error value. \<open>unpack_mqtt_packet\<close> indexes
  the table with the type nibble and calls the entry without a check: for CONNACK, for
  SUBACK and for the reserved type 0 the entry is NULL, and for UNSUBACK and the reserved
  type 15 the index is past the eleven entries of the table. On these packets the code
  calls through NULL or reads past the table, and returns no error value.
\<close>

theorem unpack_mqtt_packet_undefined_types:
  "length unpack_handlers = 11 \<and>
   unpack_handlers ! unat CONNACK = None \<and> unpack_handlers ! unat SUBACK = None \<and>
   \<not> unat UNSUBACK < length unpack_handlers \<and>
   header_type 0x20 = CONNACK \<and> unpack_mqtt_packet [0x20, 0x02, 0x00, 0x00] = Inl NullHandlerCall \<and>
   header_type 0x90 = SUBACK \<and> unpack_mqtt_packet [0x90, 0x03, 0x00, 0x01, 0x00] = Inl NullHandlerCall \<and>
   header_type 0xB0 = UNSUBACK \<and> unpack_mqtt_packet [0xB0, 0x02, 0x00, 0x01] = Inl TableIndexOutOfRange \<and>
   unpack_mqtt_packet [0x00, 0x00] = Inl NullHandlerCall \<and>
   unpack_mqtt_packet [0xF0, 0x00] = Inl TableIndexOutOfRange"
  by code_simp

section \<open>PUBLISH\<close>

text \<open>
  C4. The claim is that the decoded payload length is the Remaining Length minus the
  variable header, for every Remaining Length up to 2 MiB. \<open>unpack_mqtt_publish\<close> keeps
  the length in a \<open>uint16_t\<close>: for a QoS 0 PUBLISH with Remaining Length 70000 and the
  3-byte topic \<open>a/b\<close> the payload has 69995 bytes, and the decoder returns 4459 of them.
\<close>

theorem publish_payload_length_truncated:
  "unpack_mqtt_publish ([0xF0, 0xA2, 0x04, 0x00, 0x03, 0x61, 0x2F, 0x62] @ replicate 69995 0) 0x30
     = Inr (Publish \<lparr>publish_header = 0x30, publish_pkt_id = 0, topiclen = 3,
                      topic = [0x61, 0x2F, 0x62], payloadlen = 4459,
                      payload = replicate 4459 0\<rparr>, 70000)"
  by (simp add: unpack_mqtt_publish_def mqtt_decode_length_def bind_def unpack_u16_def
        unpack_bytes_def header_qos_def AT_MOST_ONCE_def Let_def)

section \<open>CONNECT\<close>

lemma bind_Inr: "bind m f = Inr y \<longleftrightarrow> (\<exists>x. m = Inr x \<and> f x = Inr y)"
  by (cases m) (simp_all add: bind_def)

lemma unpack_u8_Inr: "unpack_u8 buf = Inr (b, r) \<longleftrightarrow> buf = b # r"
  by (cases buf) (auto simp: unpack_u8_def)

lemma connect_byte_read:
  assumes "unpack_mqtt_connect raw hdr = Inr (pkt, len)"
  shows "\<exists>c. pkt = Connect c \<and> 8 < length raw \<and> connect_byte c = raw ! 8"
proof -
  from assms obtain l r0 byte r where d: "mqtt_decode_length raw = Inr (l, r0)"
    and u: "unpack_u8 (drop 8 raw) = Inr (byte, r)"
    and c: "\<exists>c. pkt = Connect c \<and> connect_byte c = byte"
    unfolding unpack_mqtt_connect_def
    by (fastforce simp: bind_Inr split: prod.splits)
  from u have e: "drop 8 raw = byte # r" by (simp add: unpack_u8_Inr)
  then have "raw ! 8 = byte" by (rule nth_via_drop)
  moreover have "8 < length raw"
  proof (rule ccontr)
    assume "\<not> 8 < length raw"
    then have "drop 8 raw = []" by simp
    with e show False by simp
  qed
  ultimately show ?thesis using c by auto
qed


lemma connect_frame_offset:
  "drop 8 (connect_frame length_bytes name level flags rest) = flags # rest
     \<longleftrightarrow> length length_bytes + length name = 5"
proof
  assume a: "drop 8 (connect_frame length_bytes name level flags rest) = flags # rest"
  then have "length (drop 8 (connect_frame length_bytes name level flags rest)) = Suc (length rest)"
    by simp
  then show "length length_bytes + length name = 5"
    by (simp add: connect_frame_def pack_u16_def)
next
  assume a: "length length_bytes + length name = 5"
  have "connect_frame length_bytes name level flags rest
          = (length_bytes @ pack_u16 (word_of_nat (length name)) @ name @ [level]) @ flags # rest"
    by (simp add: connect_frame_def)
  moreover have "length (length_bytes @ pack_u16 (word_of_nat (length name)) @ name @ [level]) = 8"
    using a by (simp add: pack_u16_def)
  ultimately show "drop 8 (connect_frame length_bytes name level flags rest) = flags # rest"
    by (metis append_eq_conv_conj)
qed






text \<open>
  C9, as the code has it. \<open>unpack_mqtt_connect\<close> reads the connect-flags byte at the fixed
  offset 8 after the type byte, however many bytes the Remaining Length occupies and
  however long the protocol name is. In a CONNECT packet the cursor \<open>init + 8\<close> is on the
  flags byte exactly when the number of Remaining Length bytes and the length of the
  protocol name add up to 5; for the names of 4 and 6 bytes (\<open>MQTT\<close>, \<open>MQIsdp\<close>) that is
  exactly when the Remaining Length occupies one byte and the name has 4 bytes.
\<close>

theorem connect_flags_fixed_offset:
  "(unpack_mqtt_connect raw hdr = Inr (pkt, len)
      \<longrightarrow> (\<exists>c. pkt = Connect c \<and> 8 < length raw \<and> connect_byte c = raw ! 8)) \<and>
   (drop 8 (connect_frame length_bytes name level flags rest) = flags # rest
      \<longleftrightarrow> length length_bytes + length name = 5) \<and>
   (1 \<le> length length_bytes \<and> (length name = 4 \<or> length name = 6)
      \<longrightarrow> (drop 8 (connect_frame length_bytes name level flags rest) = flags # rest
            \<longleftrightarrow> length length_bytes = 1 \<and> length name = 4))"
proof -
  have 1: "unpack_mqtt_connect raw hdr = Inr (pkt, len)
      \<longrightarrow> (\<exists>c. pkt = Connect c \<and> 8 < length raw \<and> connect_byte c = raw ! 8)"
    using connect_byte_read [of raw hdr pkt len] by blast
  have 2: "drop 8 (connect_frame length_bytes name level flags rest) = flags # rest
      \<longleftrightarrow> length length_bytes + length name = 5"
    by (rule connect_frame_offset)
  have 3: "1 \<le> length length_bytes \<and> (length name = 4 \<or> length name = 6)
      \<longrightarrow> (length length_bytes + length name = 5
            \<longleftrightarrow> length length_bytes = 1 \<and> length name = 4)"
    by auto
  show ?thesis
    unfolding 2 using 1 3 by blast
qed

theorem connect_flags_fixed_offset_witness:
  "unpack_mqtt_connect
      [0x0D, 0x00, 0x04, 0x4D, 0x51, 0x54, 0x54, 0x04, 0x02, 0x00, 0x3C, 0x00, 0x01, 0x41] 0x10
    = Inr (Connect \<lparr>connect_header = 0x10, connect_byte = 0x02, keepalive = 60,
                    client_id = Some [0x41], username = None, password = None,
                    will_topic = None, will_message = None\<rparr>, 13) \<and>
   [0x0D, 0x00, 0x04, 0x4D, 0x51, 0x54, 0x54, 0x04, 0x02, 0x00, 0x3C, 0x00, 0x01, 0x41 :: u8] ! 8 = 0x02 \<and>
   drop 8 (connect_frame [0x0D] [0x4D, 0x51, 0x54, 0x54] 0x04 0x02 [0x00, 0x3C, 0x00, 0x01, 0x41])
    = [0x02, 0x00, 0x3C, 0x00, 0x01, 0x41] \<and>
   drop 8 (connect_frame [0x0D] [0x4D, 0x51, 0x49, 0x73, 0x64, 0x70] 0x03 0x02 [0x00, 0x3C, 0x00, 0x01, 0x41])
    \<noteq> [0x02, 0x00, 0x3C, 0x00, 0x01, 0x41]"
proof -
  let ?a = "[0x0D, 0x00, 0x04, 0x4D, 0x51, 0x54, 0x54, 0x04, 0x02, 0x00, 0x3C, 0x00, 0x01, 0x41] :: u8 list"
  let ?p = "Connect \<lparr>connect_header = 0x10, connect_byte = 0x02, keepalive = 60,
                    client_id = Some [0x41], username = None, password = None,
                    will_topic = None, will_message = None\<rparr>"
  have 1: "unpack_mqtt_connect ?a 0x10 = Inr (?p, 13)" by code_simp
  show ?thesis
    using connect_flags_fixed_offset [of ?a "0x10" ?p 13 "[0x0D]" "[0x4D, 0x51, 0x54, 0x54]" "0x04" "0x02"
        "[0x00, 0x3C, 0x00, 0x01, 0x41]"]
      connect_flags_fixed_offset [of ?a "0x10" ?p 13 "[0x0D]" "[0x4D, 0x51, 0x49, 0x73, 0x64, 0x70]" "0x03" "0x02"
        "[0x00, 0x3C, 0x00, 0x01, 0x41]"]
      1
    by simp
qed

text \<open>
  C9 as stated fails in its last part: with a Remaining Length of two bytes (128) and a
  protocol name of three bytes the flags byte is at offset 8 too, and the decoder reads
  the flags, the keepalive and the client-id of the packet.
\<close>

theorem connect_offset_other_layout_counterexample:
  "drop 8 (connect_frame [0x80, 0x01] [0x4D, 0x51, 0x54] 0x04 0x02
             ([0x00, 0x3C, 0x00, 0x75] @ replicate 117 0x41))
     = 0x02 # ([0x00, 0x3C, 0x00, 0x75] @ replicate 117 0x41) \<and>
   length [0x80, 0x01 :: u8] = 2 \<and> length [0x4D, 0x51, 0x54 :: u8] = 3 \<and>
   mqtt_encode_length 128 = ([0x80, 0x01], 2) \<and>
   unpack_mqtt_connect
      (connect_frame [0x80, 0x01] [0x4D, 0x51, 0x54] 0x04 0x02
         ([0x00, 0x3C, 0x00, 0x75] @ replicate 117 0x41)) 0x10
     = Inr (Connect \<lparr>connect_header = 0x10, connect_byte = 0x02, keepalive = 60,
                      client_id = Some (replicate 117 0x41), username = None, password = None,
                      will_topic = None, will_message = None\<rparr>, 128)"
proof -
  have e: "mqtt_encode_length 128 = ([0x80, 0x01], 2)" by code_simp
  have u: "unpack_mqtt_connect
      (connect_frame [0x80, 0x01] [0x4D, 0x51, 0x54] 0x04 0x02
         ([0x00, 0x3C, 0x00, 0x75] @ replicate 117 0x41)) 0x10
     = Inr (Connect \<lparr>connect_header = 0x10, connect_byte = 0x02, keepalive = 60,
                      client_id = Some (replicate 117 0x41), username = None, password = None,
                      will_topic = None, will_message = None\<rparr>, 128)"
    by (simp add: connect_frame_def pack_u16_def unpack_mqtt_connect_def mqtt_decode_length_def
          bind_def unpack_u8_def unpack_u16_def unpack_bytes_def connect_will_def
          connect_username_def connect_password_def Let_def)
  show ?thesis
    using e u by (simp add: connect_frame_def pack_u16_def)
qed

section \<open>SUBSCRIBE and UNSUBSCRIBE\<close>

lemma unat_u16_of_bytes:
  "unat ((ucast (hi :: u8) :: u16) * 256 + ucast (lo :: u8)) = 256 * unat hi + unat lo"
proof -
  have h: "unat hi < 256" and l: "unat lo < 256"
    using unsigned_less [of hi] unsigned_less [of lo] by simp_all
  have "unat ((ucast hi :: u16) * 256 + ucast lo)
          = (unat (ucast hi :: u16) * 256 mod 65536 + unat (ucast lo :: u16)) mod 65536"
    by (simp add: unat_word_ariths)
  also have "unat (ucast hi :: u16) = unat hi"
    using h by (simp add: unsigned_ucast_eq take_bit_nat_eq_self)
  also have "unat (ucast lo :: u16) = unat lo"
    using l by (simp add: unsigned_ucast_eq take_bit_nat_eq_self)
  finally show ?thesis using h l by simp
qed

lemma unpack_u16_pack_u16: "unpack_u16 (pack_u16 v @ r) = Inr (v, r)"
proof -
  have "(ucast (ucast (drop_bit 8 v) :: u8) :: u16) * 256 + ucast (ucast v :: u8) = v"
  proof -
    have m: "(ucast (ucast (drop_bit 8 v) :: u8) :: u16) * 256
             = push_bit 8 (ucast (ucast (drop_bit 8 v) :: u8))"
      by (simp add: push_bit_eq_mult)
    have "push_bit 8 (ucast (ucast (drop_bit 8 v) :: u8) :: u16) + ucast (ucast v :: u8)
          = push_bit 8 (ucast (ucast (drop_bit 8 v) :: u8)) OR ucast (ucast v :: u8)"
      by (rule disjunctive_add) (auto simp: bit_simps)
    also have "\<dots> = v"
      by (rule bit_word_eqI) (auto simp: bit_simps)
    finally show ?thesis by (simp only: m)
  qed
  then show ?thesis by (simp add: unpack_u16_def pack_u16_def)
qed

lemma subscribe_body_Cons:
  "subscribe_body rb (hi # lo # rest) =
     (let n = 256 * unat hi + unat lo in
      if n + 1 \<le> length rest
      then Inr (\<lparr>sub_topic_len = ucast hi * 256 + ucast lo, sub_topic = take n rest,
                  sub_qos = rest ! n\<rparr>, rb - of_nat (n + 3), drop (n + 1) rest)
      else Inl ShortBuffer)"
proof -
  let ?v = "(ucast hi :: u16) * 256 + ucast lo"
  let ?n = "256 * unat hi + unat lo"
  have n: "unat ?v = ?n" by (rule unat_u16_of_bytes)
  have c: "(ucast ?v :: size_t) = of_nat ?n"
    using of_nat_unat [of ?v, where ?'a = "size_t"] by (simp only: n)
  show ?thesis
  proof (cases "?n + 1 \<le> length rest")
    case True
    then have d: "drop ?n rest = rest ! ?n # drop (?n + 1) rest"
      by (simp add: Cons_nth_drop_Suc)
    have a: "rb - 2 - of_nat ?n - 1 = rb - of_nat (?n + 3)" by simp
    show ?thesis
      using True d a
      by (simp add: subscribe_body_def bind_def unpack_u16_def unpack_bytes_def unpack_u8_def
            Let_def n c del: of_nat_add of_nat_mult)
  next
    case False
    then have "length rest < ?n \<or> drop ?n rest = []" by auto
    then show ?thesis
      using False
      by (auto simp: subscribe_body_def bind_def unpack_u16_def unpack_bytes_def unpack_u8_def
            Let_def n)
  qed
qed

lemma subscribe_body_short:
  "length raw < 2 \<Longrightarrow> subscribe_body rb raw = Inl ShortBuffer"
  by (cases raw rule: list.exhaust; cases "tl raw")
     (auto simp: subscribe_body_def bind_def unpack_u16_def)

lemma lengths_exhaust_le: "lengths_exhaust extra raw n \<Longrightarrow> n \<le> length raw"
proof (induction extra raw n rule: lengths_exhaust.induct)
  case (1 extra raw n)
  show ?case
  proof (cases "n = 0")
    case True
    then show ?thesis by simp
  next
    case False
    from "1.prems" False obtain hi lo rest where r: "raw = hi # lo # rest"
      by (subst (asm) lengths_exhaust.simps) (auto split: list.splits)
    then have r1: "raw = hi # (lo # rest)" by simp
    let ?t = "256 * unat hi + unat lo"
    from "1.prems" False r have c: "2 + ?t + extra \<le> n" "?t + extra \<le> length rest"
      and e: "lengths_exhaust extra (drop (?t + extra) rest) (n - (2 + ?t + extra))"
      by (subst (asm) lengths_exhaust.simps; simp add: Let_def split: if_splits)+
    have "n - (2 + ?t + extra) \<le> length (drop (?t + extra) rest)"
      using "1.IH" [OF False r1 refl refl conjI [OF c] e] by simp
    then show ?thesis using c r by simp
  qed
qed

lemma unat_of_nat_small: "n < 2 ^ 64 \<Longrightarrow> unat (of_nat n :: size_t) = n"
  by (simp add: unat_of_nat)

lemma unat_sub_tuple:
  assumes "k < 2 ^ 64"
  shows "unat ((rb :: size_t) - of_nat k)
           = (if k \<le> unat rb then unat rb - k else unat rb + 2 ^ 64 - k)"
  using assms by (simp add: unat_sub_if_size unat_of_nat_small word_size)

lemma u16_bytes_bound: "256 * unat (hi :: u8) + unat (lo :: u8) < 65536"
proof -
  have "unat hi < 256" and "unat lo < 256"
    using unsigned_less [of hi] unsigned_less [of lo] by simp_all
  then show ?thesis by simp
qed

lemma subscribe_loop_stops_iff:
  "length raw < 2 ^ 64 \<Longrightarrow>
     (\<exists>tuples rest. subscribe_loop rb raw acc = Inr (tuples, rest))
       \<longleftrightarrow> lengths_exhaust 1 raw (unat rb)"
proof (induction rb raw acc rule: subscribe_loop.induct)
  case (1 rb raw acc)
  show ?case
  proof (cases "0 < rb")
    case False
    then have "rb = 0" by (simp add: word_greater_zero_iff)
    then show ?thesis
      by (subst subscribe_loop.simps, subst lengths_exhaust.simps) simp
  next
    case True
    then have nz: "unat rb \<noteq> 0" by (simp add: word_greater_zero_iff unat_eq_0)
    show ?thesis
    proof (cases raw)
      case Nil
      then show ?thesis using True nz
        by (subst subscribe_loop.simps, subst lengths_exhaust.simps)
           (simp add: subscribe_body_short)
    next
      case (Cons hi r1)
      show ?thesis
      proof (cases r1)
        case Nil
        then show ?thesis using True nz Cons
          by (subst subscribe_loop.simps, subst lengths_exhaust.simps)
             (simp add: subscribe_body_short)
      next
        case (Cons lo rest)
        let ?n = "256 * unat hi + unat lo"
        have raw: "raw = hi # lo # rest" using \<open>raw = hi # r1\<close> Cons by simp
        have nb: "?n + 3 < 2 ^ 64" using u16_bytes_bound [of hi lo] by simp
        show ?thesis
        proof (cases "?n + 1 \<le> length rest")
          case False
          then show ?thesis using True nz raw
            by (subst subscribe_loop.simps, subst lengths_exhaust.simps)
               (simp add: subscribe_body_Cons Let_def)
        next
          case fits: True
          let ?t = "\<lparr>sub_topic_len = ucast hi * 256 + ucast lo, sub_topic = take ?n rest,
                       sub_qos = rest ! ?n\<rparr>"
          let ?rb' = "rb - of_nat (?n + 3)"
          let ?raw' = "drop (?n + 1) rest"
          have b: "subscribe_body rb raw = Inr (?t, ?rb', ?raw')"
            using fits raw by (simp add: subscribe_body_Cons Let_def)
          have l: "subscribe_loop rb raw acc = subscribe_loop ?rb' ?raw' (acc @ [?t])"
            using True b by (subst subscribe_loop.simps) simp
          have len': "length ?raw' < 2 ^ 64" using "1.prems" raw by simp
          have ih: "(\<exists>tuples rest. subscribe_loop ?rb' ?raw' (acc @ [?t]) = Inr (tuples, rest))
                      \<longleftrightarrow> lengths_exhaust 1 ?raw' (unat ?rb')"
            using "1.IH" [OF True b refl refl len'] .
          show ?thesis
          proof (cases "?n + 3 \<le> unat rb")
            case True
            then have u: "unat ?rb' = unat rb - (?n + 3)"
              using unat_sub_tuple [OF nb, of rb] by simp
            have a: "2 + ?n + 1 = ?n + 3" by simp
            have "lengths_exhaust 1 raw (unat rb)
                    = lengths_exhaust 1 ?raw' (unat rb - (2 + ?n + 1))"
              using True fits nz raw
              by (subst lengths_exhaust.simps) (simp add: Let_def)
            then have "lengths_exhaust 1 raw (unat rb)
                    = lengths_exhaust 1 ?raw' (unat rb - (?n + 3))"
              by (simp only: a)
            then show ?thesis using l ih u by simp
          next
            case False
            then have u: "unat ?rb' = unat rb + 2 ^ 64 - (?n + 3)"
              using unat_sub_tuple [OF nb, of rb] by simp
            have "length ?raw' < unat ?rb'"
              using u "1.prems" raw fits by simp
            then have "\<not> lengths_exhaust 1 ?raw' (unat ?rb')"
              using lengths_exhaust_le [of 1 ?raw' "unat ?rb'"] by auto
            moreover have "\<not> lengths_exhaust 1 raw (unat rb)"
              using False nz raw
              by (subst lengths_exhaust.simps) (simp add: Let_def)
            ultimately show ?thesis using l ih by simp
          qed
        qed
      qed
    qed
  qed
qed

lemma unsubscribe_body_Cons:
  "unsubscribe_body rb (hi # lo # rest) =
     (let n = 256 * unat hi + unat lo in
      if n \<le> length rest
      then Inr (\<lparr>unsub_topic_len = ucast hi * 256 + ucast lo, unsub_topic = take n rest\<rparr>,
                rb - of_nat (n + 2), drop n rest)
      else Inl ShortBuffer)"
proof -
  let ?v = "(ucast hi :: u16) * 256 + ucast lo"
  let ?n = "256 * unat hi + unat lo"
  have n: "unat ?v = ?n" by (rule unat_u16_of_bytes)
  have c: "(ucast ?v :: size_t) = of_nat ?n"
    using of_nat_unat [of ?v, where ?'a = "size_t"] by (simp only: n)
  have a: "rb - 2 - of_nat ?n = rb - of_nat (?n + 2)" by simp
  show ?thesis
    using a
    by (simp add: unsubscribe_body_def bind_def unpack_u16_def unpack_bytes_def
          Let_def n c del: of_nat_add of_nat_mult)
qed

lemma unsubscribe_body_short:
  "length raw < 2 \<Longrightarrow> unsubscribe_body rb raw = Inl ShortBuffer"
  by (cases raw rule: list.exhaust; cases "tl raw")
     (auto simp: unsubscribe_body_def bind_def unpack_u16_def)

lemma unsubscribe_loop_stops_iff:
  "length raw < 2 ^ 64 \<Longrightarrow>
     (\<exists>tuples rest. unsubscribe_loop rb raw acc = Inr (tuples, rest))
       \<longleftrightarrow> lengths_exhaust 0 raw (unat rb)"
proof (induction rb raw acc rule: unsubscribe_loop.induct)
  case (1 rb raw acc)
  show ?case
  proof (cases "0 < rb")
    case False
    then have "rb = 0" by (simp add: word_greater_zero_iff)
    then show ?thesis
      by (subst unsubscribe_loop.simps, subst lengths_exhaust.simps) simp
  next
    case True
    then have nz: "unat rb \<noteq> 0" by (simp add: word_greater_zero_iff unat_eq_0)
    show ?thesis
    proof (cases raw)
      case Nil
      then show ?thesis using True nz
        by (subst unsubscribe_loop.simps, subst lengths_exhaust.simps)
           (simp add: unsubscribe_body_short)
    next
      case (Cons hi r1)
      show ?thesis
      proof (cases r1)
        case Nil
        then show ?thesis using True nz Cons
          by (subst unsubscribe_loop.simps, subst lengths_exhaust.simps)
             (simp add: unsubscribe_body_short)
      next
        case (Cons lo rest)
        let ?n = "256 * unat hi + unat lo"
        have raw: "raw = hi # lo # rest" using \<open>raw = hi # r1\<close> Cons by simp
        have nb: "?n + 2 < 2 ^ 64" using u16_bytes_bound [of hi lo] by simp
        show ?thesis
        proof (cases "?n \<le> length rest")
          case False
          then show ?thesis using True nz raw
            by (subst unsubscribe_loop.simps, subst lengths_exhaust.simps)
               (simp add: unsubscribe_body_Cons Let_def)
        next
          case fits: True
          let ?t = "\<lparr>unsub_topic_len = ucast hi * 256 + ucast lo, unsub_topic = take ?n rest\<rparr>"
          let ?rb' = "rb - of_nat (?n + 2)"
          let ?raw' = "drop ?n rest"
          have b: "unsubscribe_body rb raw = Inr (?t, ?rb', ?raw')"
            using fits raw by (simp add: unsubscribe_body_Cons Let_def)
          have l: "unsubscribe_loop rb raw acc = unsubscribe_loop ?rb' ?raw' (acc @ [?t])"
            using True b by (subst unsubscribe_loop.simps) simp
          have len': "length ?raw' < 2 ^ 64" using "1.prems" raw by simp
          have ih: "(\<exists>tuples rest. unsubscribe_loop ?rb' ?raw' (acc @ [?t]) = Inr (tuples, rest))
                      \<longleftrightarrow> lengths_exhaust 0 ?raw' (unat ?rb')"
            using "1.IH" [OF True b refl refl len'] .
          show ?thesis
          proof (cases "?n + 2 \<le> unat rb")
            case True
            then have u: "unat ?rb' = unat rb - (?n + 2)"
              using unat_sub_tuple [OF nb, of rb] by simp
            have a: "2 + ?n + 0 = ?n + 2" by simp
            have "lengths_exhaust 0 raw (unat rb)
                    = lengths_exhaust 0 ?raw' (unat rb - (2 + ?n + 0))"
              using True fits nz raw
              by (subst lengths_exhaust.simps) (simp add: Let_def)
            then have "lengths_exhaust 0 raw (unat rb)
                    = lengths_exhaust 0 ?raw' (unat rb - (?n + 2))"
              by (simp only: a)
            then show ?thesis using l ih u by simp
          next
            case False
            then have u: "unat ?rb' = unat rb + 2 ^ 64 - (?n + 2)"
              using unat_sub_tuple [OF nb, of rb] by simp
            have "length ?raw' < unat ?rb'"
              using u "1.prems" raw fits by simp
            then have "\<not> lengths_exhaust 0 ?raw' (unat ?rb')"
              using lengths_exhaust_le [of 0 ?raw' "unat ?rb'"] by auto
            moreover have "\<not> lengths_exhaust 0 raw (unat rb)"
              using False nz raw
              by (subst lengths_exhaust.simps) (simp add: Let_def)
            ultimately show ?thesis using l ih by simp
          qed
        qed
      qed
    qed
  qed
qed

lemma subscribe_body_Inr:
  assumes "subscribe_body rb raw = Inr (t, rb', raw')"
  shows "rb' = rb - of_nat (unat (sub_topic_len t) + 3) \<and>
         length raw = length raw' + (unat (sub_topic_len t) + 3)"
proof -
  from assms have "\<not> length raw < 2" using subscribe_body_short [of raw rb] by auto
  then obtain hi lo rest where raw: "raw = hi # lo # rest"
    by (cases raw; cases "tl raw") auto
  let ?n = "256 * unat hi + unat lo"
  from assms have f: "?n + 1 \<le> length rest"
    and t: "sub_topic_len t = ucast hi * 256 + ucast lo"
    and r: "rb' = rb - of_nat (?n + 3)" and d: "raw' = drop (?n + 1) rest"
    unfolding raw subscribe_body_Cons
    by (auto simp: Let_def split: if_splits simp del: of_nat_add of_nat_mult)
  have n: "unat (sub_topic_len t) = ?n"
    using unat_u16_of_bytes [of hi lo] t by simp
  show ?thesis
    unfolding n using f r d raw by (simp del: of_nat_add of_nat_mult)
qed

lemma unsubscribe_body_Inr:
  assumes "unsubscribe_body rb raw = Inr (t, rb', raw')"
  shows "rb' = rb - of_nat (unat (unsub_topic_len t) + 2) \<and>
         length raw = length raw' + (unat (unsub_topic_len t) + 2)"
proof -
  from assms have "\<not> length raw < 2" using unsubscribe_body_short [of raw rb] by auto
  then obtain hi lo rest where raw: "raw = hi # lo # rest"
    by (cases raw; cases "tl raw") auto
  let ?n = "256 * unat hi + unat lo"
  from assms have f: "?n \<le> length rest"
    and t: "unsub_topic_len t = ucast hi * 256 + ucast lo"
    and r: "rb' = rb - of_nat (?n + 2)" and d: "raw' = drop ?n rest"
    unfolding raw unsubscribe_body_Cons
    by (auto simp: Let_def split: if_splits simp del: of_nat_add of_nat_mult)
  have n: "unat (unsub_topic_len t) = ?n"
    using unat_u16_of_bytes [of hi lo] t by simp
  show ?thesis
    unfolding n using f r d raw by (simp del: of_nat_add of_nat_mult)
qed

lemma subscribe_wraps:
  assumes "0 < rb" and "subscribe_body rb raw = Inr (t, rb', raw')"
    and "unat rb < 2 + unat (sub_topic_len t) + 1"
  shows "unat rb' = unat rb + 2 ^ 64 - (2 + unat (sub_topic_len t) + 1) \<and> 0 < rb' \<and>
         unat rb < length raw - length raw' \<and>
         subscribe_loop rb raw acc = subscribe_loop rb' raw' (acc @ [t])"
proof -
  let ?k = "unat (sub_topic_len t) + 3"
  have kb: "?k < 2 ^ 64" using unsigned_less [of "sub_topic_len t", where ?'a = nat] by simp
  from subscribe_body_Inr [OF assms(2)]
  have r: "rb' = rb - of_nat ?k" and l: "length raw = length raw' + ?k" by simp_all
  have u: "unat rb' = unat rb + 2 ^ 64 - ?k"
    using unat_sub_tuple [OF kb, of rb] assms(3) r by simp
  have "unat rb' \<noteq> 0" using u kb by simp
  then have p: "0 < rb'" by (simp add: word_greater_zero_iff unat_eq_0)
  have s: "subscribe_loop rb raw acc = subscribe_loop rb' raw' (acc @ [t])"
    using assms(1,2) by (subst subscribe_loop.simps) simp
  show ?thesis using u p s l assms(3) by simp
qed

lemma unsubscribe_wraps:
  assumes "0 < rb" and "unsubscribe_body rb raw = Inr (t, rb', raw')"
    and "unat rb < 2 + unat (unsub_topic_len t)"
  shows "unat rb' = unat rb + 2 ^ 64 - (2 + unat (unsub_topic_len t)) \<and> 0 < rb' \<and>
         unat rb < length raw - length raw' \<and>
         unsubscribe_loop rb raw acc = unsubscribe_loop rb' raw' (acc @ [t])"
proof -
  let ?k = "unat (unsub_topic_len t) + 2"
  have kb: "?k < 2 ^ 64" using unsigned_less [of "unsub_topic_len t", where ?'a = nat] by simp
  from unsubscribe_body_Inr [OF assms(2)]
  have r: "rb' = rb - of_nat ?k" and l: "length raw = length raw' + ?k" by simp_all
  have u: "unat rb' = unat rb + 2 ^ 64 - ?k"
    using unat_sub_tuple [OF kb, of rb] assms(3) r by simp
  have "unat rb' \<noteq> 0" using u kb by simp
  then have p: "0 < rb'" by (simp add: word_greater_zero_iff unat_eq_0)
  have s: "unsubscribe_loop rb raw acc = unsubscribe_loop rb' raw' (acc @ [t])"
    using assms(1,2) by (subst unsubscribe_loop.simps) simp
  show ?thesis using u p s l assms(3) by simp
qed

lemma subscribe_body_pack:
  assumes "wf_subscribe_tuple t"
  shows "subscribe_body rb (pack_subscribe_tuple t @ rest)
           = Inr (t, rb - of_nat (length (pack_subscribe_tuple t)), rest)"
proof -
  have l: "length (sub_topic t) = unat (sub_topic_len t)"
    using assms by (simp add: wf_subscribe_tuple_def)
  have c: "(ucast (sub_topic_len t) :: size_t) = of_nat (length (sub_topic t))"
    using of_nat_unat [of "sub_topic_len t", where ?'a = "size_t"] by (simp only: l)
  have n: "length (pack_subscribe_tuple t) = length (sub_topic t) + 3"
    by (simp add: pack_subscribe_tuple_def pack_u16_def)
  have a: "rb - 2 - of_nat (length (sub_topic t)) - 1 = rb - of_nat (length (sub_topic t) + 3)"
    by simp
  have "subscribe_body rb (pack_u16 (sub_topic_len t) @ sub_topic t @ sub_qos t # rest)
          = Inr (t, rb - of_nat (length (sub_topic t) + 3), rest)"
    unfolding subscribe_body_def unpack_u16_pack_u16
    using a by (simp add: bind_def unpack_bytes_def unpack_u8_def l [symmetric] c
                  del: of_nat_add)
  then show ?thesis
    unfolding n by (simp add: pack_subscribe_tuple_def del: of_nat_add)
qed

lemma subscribe_loop_packed:
  "list_all wf_subscribe_tuple ts \<Longrightarrow>
   length (concat (map pack_subscribe_tuple ts)) < 2 ^ 64 \<Longrightarrow>
   subscribe_loop (of_nat (length (concat (map pack_subscribe_tuple ts))))
       (concat (map pack_subscribe_tuple ts) @ rest) acc
     = Inr (acc @ ts, rest)"
proof (induction ts arbitrary: acc)
  case Nil
  show ?case by (subst subscribe_loop.simps) simp
next
  case (Cons t ts)
  let ?k = "length (pack_subscribe_tuple t)"
  let ?m = "length (concat (map pack_subscribe_tuple ts))"
  have k: "0 < ?k" by (simp add: pack_subscribe_tuple_def)
  have b: "?k + ?m < 2 ^ 64" using Cons.prems(2) by simp
  have "unat (of_nat (?k + ?m) :: size_t) \<noteq> 0"
    using unat_of_nat_small [OF b] k by simp
  then have p: "0 < (of_nat (?k + ?m) :: size_t)"
    by (simp add: word_greater_zero_iff unat_eq_0 del: of_nat_add)
  have w: "wf_subscribe_tuple t" and ws: "list_all wf_subscribe_tuple ts"
    using Cons.prems(1) by simp_all
  have body: "subscribe_body (of_nat (?k + ?m)) (pack_subscribe_tuple t @ concat (map pack_subscribe_tuple ts) @ rest)
          = Inr (t, of_nat ?m, concat (map pack_subscribe_tuple ts) @ rest)"
    using subscribe_body_pack [OF w, of "of_nat (?k + ?m)" "concat (map pack_subscribe_tuple ts) @ rest"]
    by simp
  have ih: "subscribe_loop (of_nat ?m) (concat (map pack_subscribe_tuple ts) @ rest) (acc @ [t])
          = Inr ((acc @ [t]) @ ts, rest)"
    using Cons.IH [OF ws, of "acc @ [t]"] b by simp
  have "subscribe_loop (of_nat (?k + ?m))
          (pack_subscribe_tuple t @ concat (map pack_subscribe_tuple ts) @ rest) acc
        = Inr (acc @ t # ts, rest)"
    using p body ih by (subst subscribe_loop.simps) (simp del: of_nat_add)
  then show ?case by simp
qed


lemma osb_subscribe_body: "only_short_buffer (subscribe_body rb raw)"
  unfolding subscribe_body_def
  by (intro osb_bind osb_prod osb_let osb_readers osb_Inr)

lemma osb_subscribe_loop: "only_short_buffer (subscribe_loop rb raw acc)"
proof (induction rb raw acc rule: subscribe_loop.induct)
  case (1 rb raw acc)
  show ?case
  proof (cases "0 < rb")
    case False
    then show ?thesis by (subst subscribe_loop.simps) (simp add: osb_Inr)
  next
    case True
    show ?thesis
    proof (cases "subscribe_body rb raw")
      case (Inl e)
      then show ?thesis
        using True osb_subscribe_body [of rb raw]
        by (subst subscribe_loop.simps) (simp add: only_short_buffer_def)
    next
      case (Inr x)
      obtain t rb' raw' where x: "x = (t, rb', raw')" by (cases x) auto
      show ?thesis
        using True Inr x "1.IH" [OF True Inr [unfolded x] refl refl]
        by (subst subscribe_loop.simps) simp
    qed
  qed
qed

lemma osb_subscribe: "only_short_buffer (unpack_mqtt_subscribe raw hdr)"
  unfolding unpack_mqtt_subscribe_def
  by (intro osb_bind osb_prod osb_let osb_readers osb_Inr osb_subscribe_loop)

text \<open>
  C6, as the code has it. \<open>unpack_mqtt_subscribe\<close> checks no requested-QoS byte: for every
  list of tuples, whatever their QoS bytes, the packet made of the encoded Remaining
  Length, a packet id and the tuples decodes to exactly these tuples, each QoS byte
  stored as it is on the wire; and on no input does the decoder report a protocol
  violation, its only failure being the read past the end of the buffer.
\<close>

theorem subscribe_qos_stored_unchecked:
  assumes "list_all wf_subscribe_tuple ts"
    and "length (concat (map pack_subscribe_tuple ts)) + 2 \<le> 268435455"
  shows "unpack_mqtt_subscribe
           (fst (mqtt_encode_length (of_nat (length (concat (map pack_subscribe_tuple ts)) + 2)))
              @ pack_u16 pid @ concat (map pack_subscribe_tuple ts) @ rest) hdr
         = Inr (Subscribe \<lparr>subscribe_header = hdr, subscribe_pkt_id = pid,
                          subscribe_tuples = ts\<rparr>,
                of_nat (length (concat (map pack_subscribe_tuple ts)) + 2)) \<and>
         only_short_buffer (unpack_mqtt_subscribe raw hdr)"
proof -
  let ?m = "length (concat (map pack_subscribe_tuple ts))"
  let ?len = "of_nat (?m + 2) :: size_t"
  have m: "?m < 2 ^ 64" using assms(2) by simp
  have u: "unat ?len = ?m + 2" using assms(2) by (intro unat_of_nat_small) simp
  then have "unat ?len < 128 ^ 4" using assms(2) by simp
  then have d: "mqtt_decode_length (fst (mqtt_encode_length ?len)
                   @ pack_u16 pid @ concat (map pack_subscribe_tuple ts) @ rest)
                = Inr (?len, pack_u16 pid @ concat (map pack_subscribe_tuple ts) @ rest)"
    by (rule length_roundtrip)
  have s: "?len - 2 = of_nat ?m" by simp
  have "unpack_mqtt_subscribe
           (fst (mqtt_encode_length ?len) @ pack_u16 pid @ concat (map pack_subscribe_tuple ts) @ rest) hdr
         = Inr (Subscribe \<lparr>subscribe_header = hdr, subscribe_pkt_id = pid,
                          subscribe_tuples = ts\<rparr>, ?len)"
    unfolding unpack_mqtt_subscribe_def d
    using subscribe_loop_packed [OF assms(1) m, of rest "[]"]
    by (simp add: bind_def unpack_u16_pack_u16 Let_def s del: of_nat_add)
  then show ?thesis using osb_subscribe [of raw hdr] by simp
qed

theorem subscribe_qos_stored_unchecked_witness:
  "list_all wf_subscribe_tuple
     [\<lparr>sub_topic_len = 1, sub_topic = [0x61], sub_qos = 0x03\<rparr>,
      \<lparr>sub_topic_len = 1, sub_topic = [0x62], sub_qos = 0x80\<rparr>] \<and>
   unpack_mqtt_subscribe
     [0x0A, 0x00, 0x01, 0x00, 0x01, 0x61, 0x03, 0x00, 0x01, 0x62, 0x80] 0x82
     = Inr (Subscribe \<lparr>subscribe_header = 0x82, subscribe_pkt_id = 1,
              subscribe_tuples =
                [\<lparr>sub_topic_len = 1, sub_topic = [0x61], sub_qos = 0x03\<rparr>,
                 \<lparr>sub_topic_len = 1, sub_topic = [0x62], sub_qos = 0x80\<rparr>]\<rparr>, 10)"
proof -
  let ?ts = "[\<lparr>sub_topic_len = 1, sub_topic = [0x61], sub_qos = 0x03\<rparr>,
              \<lparr>sub_topic_len = 1, sub_topic = [0x62], sub_qos = 0x80\<rparr>]"
  have w: "list_all wf_subscribe_tuple ?ts" by (simp add: wf_subscribe_tuple_def)
  have n: "length (concat (map pack_subscribe_tuple ?ts)) + 2 \<le> 268435455"
    by (simp add: pack_subscribe_tuple_def pack_u16_def)
  have e: "mqtt_encode_length 10 = ([0x0A], 1)" by code_simp
  show ?thesis
    using subscribe_qos_stored_unchecked [OF w n, of 1 "[]" "0x82" "[]"] w
    by (simp add: pack_subscribe_tuple_def pack_u16_def e)
qed

text \<open>
  C6 as stated fails: a SUBSCRIBE whose requested-QoS byte is \<open>0xFF\<close> decodes without any
  error, and the tuple holds \<open>0xFF\<close>.
\<close>

theorem subscribe_qos_unchecked_counterexample:
  "unpack_mqtt_subscribe [0x06, 0x00, 0x01, 0x00, 0x01, 0x61, 0xFF] 0x82
     = Inr (Subscribe \<lparr>subscribe_header = 0x82, subscribe_pkt_id = 1,
              subscribe_tuples = [\<lparr>sub_topic_len = 1, sub_topic = [0x61], sub_qos = 0xFF\<rparr>]\<rparr>, 6)"
  by code_simp

text \<open>
  C10. On a buffer of fewer than \<open>2 ^ 64\<close> bytes, the SUBSCRIBE loop and the UNSUBSCRIBE
  loop leave through their condition \<open>remaining_bytes > 0\<close> if and only if the declared
  topic lengths, tuple after tuple, exactly exhaust the count of remaining bytes; in every
  other case they run on until a read passes the end of the buffer. \<open>remaining_bytes\<close>
  is unsigned: whenever a tuple is longer than the count that remains, the subtraction
  wraps around to a value that is not 0, the cursor is past the packet boundary, and
  the loop goes on from there. The witness below is such an input: four bytes remain and a
  topic length of 10 is declared.
\<close>

theorem decode_loops_stop_iff_lengths_exhaust:
  "length raw < 2 ^ 64 \<Longrightarrow>
     ((\<exists>tuples rest. subscribe_loop remaining_bytes raw acc = Inr (tuples, rest))
        \<longleftrightarrow> lengths_exhaust 1 raw (unat remaining_bytes)) \<and>
     ((\<exists>tuples rest. unsubscribe_loop remaining_bytes raw acc' = Inr (tuples, rest))
        \<longleftrightarrow> lengths_exhaust 0 raw (unat remaining_bytes)) \<and>
     (\<forall>t rb' raw'.
        0 < remaining_bytes \<and> subscribe_body remaining_bytes raw = Inr (t, rb', raw') \<and>
        unat remaining_bytes < 2 + unat (sub_topic_len t) + 1
        \<longrightarrow> unat rb' = unat remaining_bytes + 2 ^ 64 - (2 + unat (sub_topic_len t) + 1) \<and>
            0 < rb' \<and> unat remaining_bytes < length raw - length raw' \<and>
            subscribe_loop remaining_bytes raw acc = subscribe_loop rb' raw' (acc @ [t])) \<and>
     (\<forall>t rb' raw'.
        0 < remaining_bytes \<and> unsubscribe_body remaining_bytes raw = Inr (t, rb', raw') \<and>
        unat remaining_bytes < 2 + unat (unsub_topic_len t)
        \<longrightarrow> unat rb' = unat remaining_bytes + 2 ^ 64 - (2 + unat (unsub_topic_len t)) \<and>
            0 < rb' \<and> unat remaining_bytes < length raw - length raw' \<and>
            unsubscribe_loop remaining_bytes raw acc' = unsubscribe_loop rb' raw' (acc' @ [t]))"
proof -
  assume l: "length raw < 2 ^ 64"
  have 1: "(\<exists>tuples rest. subscribe_loop remaining_bytes raw acc = Inr (tuples, rest))
        \<longleftrightarrow> lengths_exhaust 1 raw (unat remaining_bytes)"
    using l by (rule subscribe_loop_stops_iff)
  have 2: "(\<exists>tuples rest. unsubscribe_loop remaining_bytes raw acc' = Inr (tuples, rest))
        \<longleftrightarrow> lengths_exhaust 0 raw (unat remaining_bytes)"
    using l by (rule unsubscribe_loop_stops_iff)
  show ?thesis
    using 1 2 subscribe_wraps [of remaining_bytes raw _ _ _ acc]
      unsubscribe_wraps [of remaining_bytes raw _ _ _ acc']
    by blast
qed

theorem decode_loops_stop_iff_lengths_exhaust_witness:
  "length [0x00, 0x0A, 0x61, 0x62, 1, 2, 3, 4, 5, 6, 7, 8, 9, 10, 11, 12 :: u8] < 2 ^ 64 \<and>
   \<not> lengths_exhaust 1 [0x00, 0x0A, 0x61, 0x62, 1, 2, 3, 4, 5, 6, 7, 8, 9, 10, 11, 12] 4 \<and>
   subscribe_loop 4 [0x00, 0x0A, 0x61, 0x62, 1, 2, 3, 4, 5, 6, 7, 8, 9, 10, 11, 12] []
     = Inl ShortBuffer \<and>
   subscribe_body 4 [0x00, 0x0A, 0x61, 0x62, 1, 2, 3, 4, 5, 6, 7, 8, 9, 10, 11, 12]
     = Inr (\<lparr>sub_topic_len = 10, sub_topic = [0x61, 0x62, 1, 2, 3, 4, 5, 6, 7, 8], sub_qos = 9\<rparr>,
            18446744073709551607, [10, 11, 12]) \<and>
   subscribe_loop 4 [0x00, 0x0A, 0x61, 0x62, 1, 2, 3, 4, 5, 6, 7, 8, 9, 10, 11, 12] []
     = subscribe_loop 18446744073709551607 [10, 11, 12]
         [\<lparr>sub_topic_len = 10, sub_topic = [0x61, 0x62, 1, 2, 3, 4, 5, 6, 7, 8], sub_qos = 9\<rparr>] \<and>
   \<not> lengths_exhaust 0 [0x00, 0x0A, 0x61, 0x62, 1, 2, 3, 4, 5, 6, 7, 8, 9, 10, 11, 12] 4 \<and>
   unsubscribe_loop 4 [0x00, 0x0A, 0x61, 0x62, 1, 2, 3, 4, 5, 6, 7, 8, 9, 10, 11, 12] []
     = Inl ShortBuffer"
proof -
  let ?raw = "[0x00, 0x0A, 0x61, 0x62, 1, 2, 3, 4, 5, 6, 7, 8, 9, 10, 11, 12] :: u8 list"
  let ?t = "\<lparr>sub_topic_len = 10, sub_topic = [0x61, 0x62, 1, 2, 3, 4, 5, 6, 7, 8 :: u8], sub_qos = 9\<rparr>"
  have l: "length ?raw < 2 ^ 64" by simp
  have b: "subscribe_body 4 ?raw = Inr (?t, 18446744073709551607, [10, 11, 12])" by code_simp
  have s: "subscribe_loop 4 ?raw [] = Inl ShortBuffer" by code_simp
  have u: "unsubscribe_loop 4 ?raw [] = Inl ShortBuffer" by code_simp
  have p: "(0 :: size_t) < 4" by simp
  have q: "unat (4 :: size_t) < 2 + unat (sub_topic_len ?t) + 1" by simp
  note t = decode_loops_stop_iff_lengths_exhaust [OF l, of 4 "[]" "[]"]
  from t have 1: "\<not> lengths_exhaust 1 ?raw 4" using s by simp
  from t have 2: "\<not> lengths_exhaust 0 ?raw 4" using u by simp
  from t b p q have 3: "subscribe_loop 4 ?raw []
      = subscribe_loop 18446744073709551607 [10, 11, 12] ([] @ [?t])"
    by blast
  show ?thesis using l 1 2 3 b s u by simp
qed

section \<open>Event loop\<close>

lemma run_events_eq:
  "run_events el ds s called =
     (fold (\<lambda>d s. case find_closure el d of None \<Rightarrow> s | Some c \<Rightarrow> call c s) ds s,
      called @ filter (\<lambda>d. find_closure el d \<noteq> None) ds)"
  by (induction ds arbitrary: s called) (auto split: option.splits)

text \<open>
  C8. One cycle of the event loop handles at most \<open>max_events\<close> of the ready descriptors,
  256 for a loop created with \<open>EPOLL_MAX_EVENTS\<close> (registering a closure does not change
  the bound), and for each of them that has a registered closure it invokes the callback
  of that closure, in the order of the events.
\<close>

theorem evloop_cycle_bounded:
  "evloop_cycle el ready s = (s', called) \<Longrightarrow>
     length called \<le> max_events el \<and>
     called = filter (\<lambda>d. find_closure el d \<noteq> None) (take (max_events el) ready) \<and>
     (\<forall>d \<in> set (take (max_events el) ready). \<forall>c. find_closure el d = Some c \<longrightarrow> d \<in> set called) \<and>
     s' = fold (\<lambda>d s. case find_closure el d of None \<Rightarrow> s | Some c \<Rightarrow> call c s)
            (take (max_events el) ready) s \<and>
     max_events (evloop_create EPOLL_MAX_EVENTS EPOLL_TIMEOUT :: 's evloop) = 256 \<and>
     max_events (evloop_add_callback el c') = max_events el"
proof -
  assume a: "evloop_cycle el ready s = (s', called)"
  let ?ev = "take (max_events el) ready"
  from a have c: "called = filter (\<lambda>d. find_closure el d \<noteq> None) ?ev"
    and s: "s' = fold (\<lambda>d s. case find_closure el d of None \<Rightarrow> s | Some c \<Rightarrow> call c s) ?ev s"
    by (simp_all add: evloop_cycle_def run_events_eq)
  have "length called \<le> length ?ev" unfolding c by (rule length_filter_le)
  then have b: "length called \<le> max_events el" by simp
  have m: "\<forall>d \<in> set ?ev. \<forall>c. find_closure el d = Some c \<longrightarrow> d \<in> set called"
    unfolding c by auto
  show ?thesis
    using b c m s by (simp add: evloop_create_def evloop_add_callback_def EPOLL_MAX_EVENTS_def)
qed

theorem evloop_cycle_bounded_witness:
  "evloop_cycle
     (evloop_add_callback
        (evloop_add_callback (evloop_create 2 EPOLL_TIMEOUT) \<lparr>fd = 3, call = (\<lambda>s :: nat. s + 1)\<rparr>)
        \<lparr>fd = 4, call = (\<lambda>s. s * 10)\<rparr>)
     [3, 9, 4, 3] 1
   = (2, [3]) \<and>
   evloop_cycle
     (evloop_add_callback
        (evloop_add_callback (evloop_create EPOLL_MAX_EVENTS EPOLL_TIMEOUT) \<lparr>fd = 3, call = (\<lambda>s :: nat. s + 1)\<rparr>)
        \<lparr>fd = 4, call = (\<lambda>s. s * 10)\<rparr>)
     [3, 9, 4, 3] 1
   = (21, [3, 4, 3]) \<and>
   length [3, 4, 3 :: int] \<le> 256"
proof -
  let ?c3 = "\<lparr>fd = 3, call = (\<lambda>s :: nat. s + 1)\<rparr>"
  let ?c4 = "\<lparr>fd = 4, call = (\<lambda>s :: nat. s * 10)\<rparr>"
  let ?el = "\<lambda>n. evloop_add_callback (evloop_add_callback (evloop_create n EPOLL_TIMEOUT) ?c3) ?c4"
  have 1: "evloop_cycle (?el 2) [3, 9, 4, 3] 1 = (2, [3])"
    by (simp add: evloop_cycle_def find_closure_def evloop_add_callback_def evloop_create_def)
  have 2: "evloop_cycle (?el EPOLL_MAX_EVENTS) [3, 9, 4, 3] 1 = (21, [3, 4, 3])"
    by (simp add: evloop_cycle_def find_closure_def evloop_add_callback_def evloop_create_def
          EPOLL_MAX_EVENTS_def)
  have m: "max_events (?el EPOLL_MAX_EVENTS) = 256"
    by (simp add: evloop_add_callback_def evloop_create_def EPOLL_MAX_EVENTS_def)
  have "length [3, 4, 3 :: int] \<le> max_events (?el EPOLL_MAX_EVENTS)"
    using evloop_cycle_bounded [OF 2, of ?c3] by blast
  then show ?thesis using 1 2 m by simp
qed


end
